theory Spec2Isabelle
  imports Main
begin

section \<open>Text and character classes\<close>

text \<open>
  A Python \<open>str\<close> is a sequence of Unicode code points; \<open>len\<close>, indexing, slicing and
  the \<open>re\<close> module all count code points.  A text is therefore a list of code points
  (natural numbers), and \<open>str\<close> turns an ASCII literal into such a list.
\<close>

type_synonym pystr = "nat list"

definition str :: "string \<Rightarrow> pystr" where
  "str s = map of_char s"

text \<open>
  The regular expressions are \<open>str\<close> patterns, so \<open>\d\<close>, \<open>\w\<close> and \<open>\b\<close> are
  Unicode-aware.  What they accept below code point 128 is fixed and written out; what
  they accept beyond ASCII is a table of the interpreter's Unicode database, which is
  not part of the repository and is taken as a parameter.
\<close>

record unicode_tables =
  decimal_ext :: "nat \<Rightarrow> bool"    \<comment> \<open>decimal digits (category Nd) beyond ASCII\<close>
  alnum_ext :: "nat \<Rightarrow> bool"      \<comment> \<open>other alphanumeric characters beyond ASCII\<close>
  upper_ext :: "nat \<Rightarrow> pystr"    \<comment> \<open>full uppercase mapping beyond ASCII\<close>

definition isdecimal :: "unicode_tables \<Rightarrow> nat \<Rightarrow> bool" where
  "isdecimal U c = (if c < 128 then 48 \<le> c \<and> c \<le> 57 else decimal_ext U c)"

definition isalnum :: "unicode_tables \<Rightarrow> nat \<Rightarrow> bool" where
  "isalnum U c =
     (if c < 128 then (48 \<le> c \<and> c \<le> 57) \<or> (65 \<le> c \<and> c \<le> 90) \<or> (97 \<le> c \<and> c \<le> 122)
      else decimal_ext U c \<or> alnum_ext U c)"

text \<open>\<open>\w\<close>: alphanumeric or the underscore.\<close>

definition isword :: "unicode_tables \<Rightarrow> nat \<Rightarrow> bool" where
  "isword U c = (isalnum U c \<or> c = 95)"

text \<open>
  \<open>str.upper()\<close> maps every character through the full uppercase mapping.  Decimal
  digits have no case.
\<close>

definition upper_char :: "unicode_tables \<Rightarrow> nat \<Rightarrow> pystr" where
  "upper_char U c =
     (if 97 \<le> c \<and> c \<le> 122 then [c - 32]
      else if c < 128 \<or> isdecimal U c then [c]
      else upper_ext U c)"

definition upper :: "unicode_tables \<Rightarrow> pystr \<Rightarrow> pystr" where
  "upper U s = concat (map (upper_char U) s)"

text \<open>
  A literal of a pattern compiled with \<open>re.IGNORECASE\<close> accepts every character whose
  lowercase is the literal's lowercase or one of its listed equivalents.  For an ASCII
  letter these are its two cases, and in addition U+017F (long s) for \<open>s\<close>, U+212A
  (Kelvin sign) for \<open>k\<close>, U+0130 and U+0131 (dotted and dotless i) for \<open>i\<close>.  A
  character without case accepts itself only.
\<close>

definition ascii_lower :: "nat \<Rightarrow> nat" where
  "ascii_lower c = (if 65 \<le> c \<and> c \<le> 90 then c + 32 else c)"

definition ignorecase :: "nat \<Rightarrow> nat \<Rightarrow> bool" where
  "ignorecase p x =
     (ascii_lower x = ascii_lower p \<and> x < 128
      \<or> ascii_lower p = 115 \<and> x = 383
      \<or> ascii_lower p = 107 \<and> x = 8490
      \<or> ascii_lower p = 105 \<and> (x = 304 \<or> x = 305))"

text \<open>Python slicing \<open>t[a:b]\<close> for \<open>0 \<le> a\<close>, \<open>0 \<le> b\<close>: both ends are clamped.\<close>

definition slice :: "pystr \<Rightarrow> nat \<Rightarrow> nat \<Rightarrow> pystr" where
  "slice t a b = take (b - a) (drop a t)"

section \<open>Regular expressions\<close>

text \<open>
  The fragment of \<open>re\<close> syntax the three patterns use: one character of a class, the
  word boundary \<open>\b\<close>, concatenation, ordered alternation \<open>|\<close>, the greedy option
  \<open>?\<close> and the named group \<open>(?P<code>...)\<close>.  A bounded repetition is a chain of these.
\<close>

datatype re =
    Chr "nat \<Rightarrow> bool"
  | WordB
  | Eps
  | Seq re re
  | Alt re re
  | Opt re
  | Group re

text \<open>
  \<open>\b\<close> holds at position \<open>i\<close> when exactly one of the characters before and after
  \<open>i\<close> is a word character; beyond either end of the text there is none.
\<close>

definition boundary :: "unicode_tables \<Rightarrow> pystr \<Rightarrow> nat \<Rightarrow> bool" where
  "boundary U t i =
     ((0 < i \<and> i \<le> length t \<and> isword U (t ! (i - 1))) \<noteq> (i < length t \<and> isword U (t ! i)))"

text \<open>
  The matcher is a backtracking one.  \<open>ms U t r (i, g)\<close> lists, in the order in which
  backtracking tries them, the states in which \<open>r\<close> can finish when started at
  position \<open>i\<close> with the group \<open>code\<close> bound to \<open>g\<close>: a state is the end position
  and the span of the group.  The first state of the list is the match.
\<close>

type_synonym mstate = "nat \<times> (nat \<times> nat) option"

fun ms :: "unicode_tables \<Rightarrow> pystr \<Rightarrow> re \<Rightarrow> mstate \<Rightarrow> mstate list" where
  "ms U t (Chr p) (i, g) = (if i < length t \<and> p (t ! i) then [(Suc i, g)] else [])"
| "ms U t WordB (i, g) = (if boundary U t i then [(i, g)] else [])"
| "ms U t Eps s = [s]"
| "ms U t (Seq a b) s = concat (map (ms U t b) (ms U t a s))"
| "ms U t (Alt a b) s = ms U t a s @ ms U t b s"
| "ms U t (Opt a) s = ms U t a s @ [s]"
| "ms U t (Group a) (i, g) = map (\<lambda>(j, g'). (j, Some (i, j))) (ms U t a (i, g))"

fun seqs :: "re list \<Rightarrow> re" where
  "seqs [] = Eps"
| "seqs (r # rs) = Seq r (seqs rs)"

text \<open>\<open>r{n}\<close> and the greedy \<open>r{0,n}\<close>.\<close>

fun exactly :: "nat \<Rightarrow> re \<Rightarrow> re" where
  "exactly 0 r = Eps"
| "exactly (Suc n) r = Seq r (exactly n r)"

fun at_most :: "nat \<Rightarrow> re \<Rightarrow> re" where
  "at_most 0 r = Eps"
| "at_most (Suc n) r = Opt (Seq r (at_most n r))"

definition lit :: "char \<Rightarrow> re" where
  "lit c = Chr (\<lambda>x. x = of_char c)"

definition ilit :: "char \<Rightarrow> re" where
  "ilit c = Chr (ignorecase (of_char c))"

definition istr :: "string \<Rightarrow> re" where
  "istr s = seqs (map ilit s)"

definition one_of :: "string \<Rightarrow> re" where
  "one_of s = Chr (\<lambda>x. x \<in> set (str s))"

definition digit :: "unicode_tables \<Rightarrow> re" where
  "digit U = Chr (isdecimal U)"

text \<open>A match object: start, end, and the span of the group \<open>code\<close> if it took part.\<close>

record match =
  m_start :: nat
  m_end :: nat
  m_code :: "(nat \<times> nat) option"

text \<open>
  \<open>pattern.finditer(text)\<close>: scan from the left; at each position take the first way
  the pattern matches there, if any, yield it and resume at its end; otherwise move one
  position on.  The last position tried is the end of the text.  (After an empty match
  the scan moves one position on; none of the patterns here matches the empty string.)
\<close>

function finditer_from :: "unicode_tables \<Rightarrow> re \<Rightarrow> pystr \<Rightarrow> nat \<Rightarrow> match list" where
  "finditer_from U r t pos =
     (if length t < pos then []
      else (case ms U t r (pos, None) of
              [] \<Rightarrow> finditer_from U r t (Suc pos)
            | (e, g) # _ \<Rightarrow>
                \<lparr>m_start = pos, m_end = e, m_code = g\<rparr>
                  # finditer_from U r t (if pos < e then e else Suc pos)))"
  by pat_completeness auto
termination
  by (relation "measure (\<lambda>(U, r, t, pos). Suc (length t) - pos)") auto

declare finditer_from.simps [simp del]

definition finditer :: "unicode_tables \<Rightarrow> re \<Rightarrow> pystr \<Rightarrow> match list" where
  "finditer U r t = finditer_from U r t 0"

text \<open>\<open>re.search\<close> returns the first match of the scan, or \<open>None\<close>.\<close>

definition re_search :: "unicode_tables \<Rightarrow> re \<Rightarrow> pystr \<Rightarrow> match option" where
  "re_search U r t = (case finditer U r t of [] \<Rightarrow> None | m # _ \<Rightarrow> Some m)"

text \<open>\<open>m.group(0)\<close> and \<open>m.group("code")\<close>.\<close>

definition group0 :: "pystr \<Rightarrow> match \<Rightarrow> pystr" where
  "group0 t m = slice t (m_start m) (m_end m)"

definition group_code :: "pystr \<Rightarrow> match \<Rightarrow> pystr option" where
  "group_code t m = (case m_code m of None \<Rightarrow> None | Some (a, b) \<Rightarrow> Some (slice t a b))"

section \<open>The patterns of \<open>scripts/agent_select.py\<close>\<close>

text \<open>
  \<^verbatim>\<open>_ASTOCK_FULL = re.compile(r'\b(?:SH|SZ)?(?P<code>[036]\d{5}|[12]\d{5})(?:\.(?:SH|SZ))?\b', re.IGNORECASE)\<close>
\<close>

definition ASTOCK_FULL :: "unicode_tables \<Rightarrow> re" where
  "ASTOCK_FULL U =
     seqs [WordB,
           Opt (Alt (istr ''SH'') (istr ''SZ'')),
           Group (Alt (Seq (one_of ''036'') (exactly 5 (digit U)))
                      (Seq (one_of ''12'') (exactly 5 (digit U)))),
           Opt (Seq (lit CHR ''.'') (Alt (istr ''SH'') (istr ''SZ''))),
           WordB]"

text \<open>\<^verbatim>\<open>_HKSTOCK_FULL = re.compile(r'\bHK\d{5}\b', re.IGNORECASE)\<close>\<close>

definition HKSTOCK_FULL :: "unicode_tables \<Rightarrow> re" where
  "HKSTOCK_FULL U = seqs [WordB, istr ''HK'', exactly 5 (digit U), WordB]"

text \<open>\<^verbatim>\<open>_USSTOCK_FULL = re.compile(r'\b[A-Z]{1,5}\b')\<close>\<close>

definition upper_AZ :: "nat \<Rightarrow> bool" where
  "upper_AZ x = (65 \<le> x \<and> x \<le> 90)"

definition USSTOCK_FULL :: re where
  "USSTOCK_FULL = seqs [WordB, Chr upper_AZ, at_most 4 (Chr upper_AZ), WordB]"

text \<open>
  The pattern of the context test, \<^verbatim>\<open>[$%\<close>U+FFE5 U+00A5\<^verbatim>\<open>\d]\<close>: dollar sign, percent
  sign, fullwidth yen sign, yen sign, or a decimal digit.
\<close>

definition price_char :: "unicode_tables \<Rightarrow> nat \<Rightarrow> bool" where
  "price_char U x = (x = 36 \<or> x = 37 \<or> x = 65509 \<or> x = 165 \<or> isdecimal U x)"

definition PRICE_OR_PCT :: "unicode_tables \<Rightarrow> re" where
  "PRICE_OR_PCT U = Chr (price_char U)"

text \<open>\<^verbatim>\<open>_VALID_FIRST = set("036")\<close>\<close>

definition VALID_FIRST :: "nat set" where
  "VALID_FIRST = set (str ''036'')"

section \<open>\<open>_extract_stock_codes\<close>\<close>

text \<open>
  \<open>seen\<close> is a \<open>dict[str, None]\<close> used as an ordered set: only its keys carry
  information, and a dict keeps them in insertion order.  It is modelled by the list of
  its keys.  \<open>seen.setdefault(k)\<close> inserts \<open>k\<close> at the end unless it is present.
\<close>

definition setdefault :: "pystr list \<Rightarrow> pystr \<Rightarrow> pystr list" where
  "setdefault seen k = (if k \<in> set seen then seen else seen @ [k])"

text \<open>
  The test \<^verbatim>\<open>code[0] in _VALID_FIRST or code[0] in "12"\<close>.  The group \<open>code\<close> takes
  part in every match of the pattern and spans six characters (lemma \<open>astock_code\<close>
  below), so \<open>code[0]\<close> exists whenever the test is reached; the other cases of the
  definition are never reached.
\<close>

definition first_ok :: "pystr option \<Rightarrow> bool" where
  "first_ok code =
     (case code of Some (c # _) \<Rightarrow> c \<in> VALID_FIRST \<or> c \<in> set (str ''12'') | _ \<Rightarrow> False)"

definition astock_step :: "pystr \<Rightarrow> match \<Rightarrow> pystr list \<Rightarrow> pystr list" where
  "astock_step t m seen =
     (let code = group_code t m
      in if first_ok code then setdefault seen (the code) else seen)"

definition hk_step :: "unicode_tables \<Rightarrow> pystr \<Rightarrow> match \<Rightarrow> pystr list \<Rightarrow> pystr list" where
  "hk_step U t m seen = setdefault seen (upper U (group0 t m))"

definition us_context :: "pystr \<Rightarrow> match \<Rightarrow> pystr" where
  "us_context t m =
     (let span_start = nat (max 0 (int (m_start m) - 20));
          span_end = min (length t) (m_end m + 20)
      in slice t span_start span_end)"

definition us_step :: "unicode_tables \<Rightarrow> pystr \<Rightarrow> match \<Rightarrow> pystr list \<Rightarrow> pystr list" where
  "us_step U t m seen =
     (let ticker = group0 t m;
          context = us_context t m
      in if re_search U (PRICE_OR_PCT U) context \<noteq> None then setdefault seen ticker else seen)"

definition extract_stock_codes :: "unicode_tables \<Rightarrow> pystr \<Rightarrow> string \<Rightarrow> pystr list" where
  "extract_stock_codes U t market =
     (let seen = [];
          seen = fold (astock_step t) (finditer U (ASTOCK_FULL U) t) seen;
          seen = (if market \<in> {''hk'', ''mixed''}
                  then fold (hk_step U t) (finditer U (HKSTOCK_FULL U) t) seen else seen);
          seen = (if market \<in> {''us'', ''mixed''}
                  then fold (us_step U t) (finditer U USSTOCK_FULL t) seen else seen)
      in seen)"

section \<open>The dictionary behind the ordered set\<close>












section \<open>\<open>main\<close>\<close>

text \<open>The parsed command line (\<open>parse_args\<close>); \<open>--max-stocks\<close> has \<open>type=int\<close>.\<close>

record args =
  strategy :: string
  max_stocks :: int
  output_path :: "string option"    \<comment> \<open>\<open>args.output\<close>\<close>
  report :: "string option"
  market :: string
  debug :: bool

text \<open>The result object of \<open>executor.run\<close>.\<close>

record agent_result =
  success :: bool
  error :: pystr
  content :: pystr

text \<open>
  The agent framework, the configuration, the logging set-up and the file system are
  outside the repository.  What they do in one execution is the course of that
  execution:
  \<^item> \<open>SetupRaises\<close>: \<open>setup_logging\<close> or \<open>get_config\<close> raises (lines 124 and 126, in no
    \<open>try\<close>);
  \<^item> \<open>BuildRaises\<close>: \<open>build_agent_executor\<close> raises (in the \<open>try\<close> of lines 129 to 133);
  \<^item> \<open>RunRaises\<close>: the executor is built and \<open>executor.run\<close> raises (line 139, after
    the \<open>try\<close>);
  \<^item> \<open>Executor r\<close>: the executor is built, \<open>run\<close> returns \<open>r\<close>, and every file write
    \<open>main\<close> asks for succeeds;
  \<^item> \<open>ReportWriteRaises r exc\<close>: \<open>run\<close> returns \<open>r\<close>, and writing the report (lines 152
    and 153) raises if \<open>main\<close> comes to it;
  \<^item> \<open>OutputWriteRaises r exc\<close>: \<open>run\<close> returns \<open>r\<close>, the report is written if asked
    for, and writing the code list (lines 173 and 174) raises if \<open>main\<close> comes to it.

  The prompt text itself has no part in what \<open>main\<close> does with the result and is not
  modelled.
\<close>

datatype course =
    SetupRaises pystr
  | BuildRaises pystr
  | RunRaises pystr
  | Executor agent_result
  | ReportWriteRaises agent_result pystr
  | OutputWriteRaises agent_result pystr


text \<open>
  What \<open>main\<close> does to the outside, in order: calls to the agent framework, log
  records (by level), lines printed to stdout, directories and files written.
\<close>

datatype event =
    CallBuild string
  | CallRun
  | LogInfo
  | LogWarning
  | LogError
  | Print pystr
  | MakeParentDirs string
  | WriteText string pystr
  | WriteFailed string

text \<open>The slice \<open>xs[:n]\<close> for any integer \<open>n\<close>: a negative \<open>n\<close> counts from the end.\<close>

definition py_prefix :: "'a list \<Rightarrow> int \<Rightarrow> 'a list" where
  "py_prefix xs n = (if 0 \<le> n then take (nat n) xs else take (nat (int (length xs) + n)) xs)"

text \<open>\<open>sep.join(xs)\<close>.\<close>

fun join :: "pystr \<Rightarrow> pystr list \<Rightarrow> pystr" where
  "join sep [] = []"
| "join sep [x] = x"
| "join sep (x # y # ys) = x @ sep @ join sep (y # ys)"

text \<open>
  \<open>if args.report:\<close> and \<open>if args.output:\<close> test truthiness: the option is absent or
  the empty string.
\<close>

definition requested :: "string option \<Rightarrow> bool" where
  "requested path = (case path of None \<Rightarrow> False | Some p \<Rightarrow> p \<noteq> [])"

definition write_if_requested :: "string option \<Rightarrow> pystr \<Rightarrow> event list" where
  "write_if_requested path txt =
     (case path of
        None \<Rightarrow> []
      | Some p \<Rightarrow> if p = [] then [] else [MakeParentDirs p, WriteText p txt, LogInfo])"

text \<open>
  \<open>main\<close> either returns an exit status (\<open>Inr\<close>) or lets an exception escape
  (\<open>Inl\<close>); the events are what it did before.  Lines 141 to 179, once \<open>run\<close> has
  returned \<open>result\<close>: \<open>report_exc\<close> and \<open>output_exc\<close> are the exceptions the two file
  writes raise, if they do.
\<close>

definition main_after_run ::
  "unicode_tables \<Rightarrow> args \<Rightarrow> agent_result \<Rightarrow> pystr option \<Rightarrow> pystr option
   \<Rightarrow> event list \<times> (pystr + int)" where
  "main_after_run U a result report_exc output_exc =
     (let tr = [LogInfo, CallBuild (strategy a), LogInfo, CallRun]
      in if \<not> success result then (tr @ [LogError, Print []], Inr 1)
         else
           (let report_text = content result;
                tr = tr @ [LogInfo]
            in if requested (report a) \<and> report_exc \<noteq> None
               then (tr @ [WriteFailed (the (report a))], Inl (the report_exc))
               else
                 (let tr = tr @ write_if_requested (report a) report_text;
                      codes = extract_stock_codes U report_text (market a);
                      codes = py_prefix codes (max_stocks a)
                  in if codes = [] then (tr @ [LogWarning, LogWarning, Print []], Inr 0)
                     else
                       (let csv_codes = join (str '','') codes;
                            tr = tr @ [LogInfo]
                        in if requested (output_path a) \<and> output_exc \<noteq> None
                           then (tr @ [WriteFailed (the (output_path a))], Inl (the output_exc))
                           else
                             (let tr = tr @ write_if_requested (output_path a) csv_codes
                              in (tr @ [Print csv_codes], Inr 0))))))"

definition main :: "unicode_tables \<Rightarrow> args \<Rightarrow> course \<Rightarrow> event list \<times> (pystr + int)" where
  "main U a b =
     (case b of
        SetupRaises exc \<Rightarrow> ([], Inl exc)
      | BuildRaises exc \<Rightarrow> ([LogInfo, CallBuild (strategy a), LogError], Inr 1)
      | RunRaises exc \<Rightarrow> ([LogInfo, CallBuild (strategy a), LogInfo, CallRun], Inl exc)
      | Executor result \<Rightarrow> main_after_run U a result None None
      | ReportWriteRaises result exc \<Rightarrow> main_after_run U a result (Some exc) None
      | OutputWriteRaises result exc \<Rightarrow> main_after_run U a result None (Some exc))"

text \<open>The lines on stdout.\<close>

fun printed :: "event \<Rightarrow> pystr list" where
  "printed (Print s) = [s]"
| "printed _ = []"

definition stdout_of :: "event list \<times> (pystr + int) \<Rightarrow> pystr list" where
  "stdout_of r = concat (map printed (fst r))"

text \<open>
  The module ends with \<open>sys.exit(main())\<close>: when \<open>main\<close> returns \<open>n\<close> the process
  exits with status \<open>n\<close>; when an exception escapes \<open>main\<close> the interpreter reports it
  and exits with status 1.
\<close>

definition exit_status :: "event list \<times> (pystr + int) \<Rightarrow> int" where
  "exit_status r = (case snd r of Inl exc \<Rightarrow> 1 | Inr n \<Rightarrow> n)"



fun is_build :: "event \<Rightarrow> bool" where
  "is_build (CallBuild _) = True"
| "is_build _ = False"



section \<open>Notions of the specification\<close>

text \<open>
  The tokens each loop of \<open>_extract_stock_codes\<close> hands to \<open>setdefault\<close>, in match
  order: the accepted domestic, overseas and ticker tokens.
\<close>

definition domestic_tokens :: "unicode_tables \<Rightarrow> pystr \<Rightarrow> pystr list" where
  "domestic_tokens U t =
     map (\<lambda>m. the (group_code t m))
       (filter (\<lambda>m. first_ok (group_code t m)) (finditer U (ASTOCK_FULL U) t))"

definition overseas_tokens :: "unicode_tables \<Rightarrow> pystr \<Rightarrow> pystr list" where
  "overseas_tokens U t = map (\<lambda>m. upper U (group0 t m)) (finditer U (HKSTOCK_FULL U) t)"

definition ticker_kept :: "unicode_tables \<Rightarrow> pystr \<Rightarrow> match \<Rightarrow> bool" where
  "ticker_kept U t m = (re_search U (PRICE_OR_PCT U) (us_context t m) \<noteq> None)"

definition ticker_tokens :: "unicode_tables \<Rightarrow> pystr \<Rightarrow> pystr list" where
  "ticker_tokens U t = map (group0 t) (filter (ticker_kept U t) (finditer U USSTOCK_FULL t))"

definition accepted :: "unicode_tables \<Rightarrow> pystr \<Rightarrow> string \<Rightarrow> pystr list" where
  "accepted U t scope =
     domestic_tokens U t
     @ (if scope \<in> {''hk'', ''mixed''} then overseas_tokens U t else [])
     @ (if scope \<in> {''us'', ''mixed''} then ticker_tokens U t else [])"

text \<open>
  An order-preserving set built by insertion: of equal elements the first stays where
  it is and the later ones are dropped.
\<close>

fun first_occurrences :: "'a list \<Rightarrow> 'a list" where
  "first_occurrences [] = []"
| "first_occurrences (x # xs) = x # filter (\<lambda>y. y \<noteq> x) (first_occurrences xs)"

definition insert_all :: "pystr list \<Rightarrow> pystr list \<Rightarrow> pystr list" where
  "insert_all seen ks = fold (\<lambda>k s. setdefault s k) ks seen"

text \<open>A six-digit numeric token.\<close>

definition six_digits :: "unicode_tables \<Rightarrow> pystr \<Rightarrow> bool" where
  "six_digits U w = (length w = 6 \<and> list_all (isdecimal U) w)"

text \<open>The leading digits \<open>0\<close>, \<open>1\<close>, \<open>2\<close>, \<open>3\<close>, \<open>6\<close>.\<close>

definition allowed_first :: "nat set" where
  "allowed_first = set (str ''01236'')"

text \<open>
  An overseas token at position \<open>s\<close> of the text: the marker \<open>HK\<close> in either case,
  five digits, and a word boundary on each side.
\<close>

definition hk_token :: "unicode_tables \<Rightarrow> pystr \<Rightarrow> nat \<Rightarrow> bool" where
  "hk_token U t s =
     (boundary U t s \<and> s + 7 \<le> length t
      \<and> ignorecase (of_char CHR ''H'') (t ! s) \<and> ignorecase (of_char CHR ''K'') (t ! (s + 1))
      \<and> isdecimal U (t ! (s + 2)) \<and> isdecimal U (t ! (s + 3)) \<and> isdecimal U (t ! (s + 4))
      \<and> isdecimal U (t ! (s + 5)) \<and> isdecimal U (t ! (s + 6))
      \<and> boundary U t (s + 7))"

text \<open>
  A ticker token from position \<open>s\<close> to position \<open>e\<close>: one to five uppercase letters
  \<open>A\<close> to \<open>Z\<close> with a word boundary on each side.
\<close>

definition ticker_token :: "unicode_tables \<Rightarrow> pystr \<Rightarrow> nat \<Rightarrow> nat \<Rightarrow> bool" where
  "ticker_token U t s e =
     (boundary U t s \<and> s < e \<and> e \<le> s + 5 \<and> e \<le> length t
      \<and> (\<forall>k. s \<le> k \<and> k < e \<longrightarrow> upper_AZ (t ! k))
      \<and> boundary U t e)"

text \<open>The window from 20 characters before the match to 20 characters after it.\<close>

definition window20 :: "pystr \<Rightarrow> nat \<Rightarrow> nat \<Rightarrow> pystr" where
  "window20 t s e = slice t (s - 20) (e + 20)"

text \<open>
  The marks the context test looks for: a currency symbol (dollar sign, yen sign
  U+00A5, fullwidth yen sign U+FFE5), the percent sign, or a decimal digit.
\<close>

definition currency_symbol :: "nat \<Rightarrow> bool" where
  "currency_symbol c = (c = 36 \<or> c = 165 \<or> c = 65509)"

definition percent_sign :: "nat \<Rightarrow> bool" where
  "percent_sign c = (c = 37)"

definition price_mark_near :: "unicode_tables \<Rightarrow> pystr \<Rightarrow> nat \<Rightarrow> nat \<Rightarrow> bool" where
  "price_mark_near U t s e =
     (\<exists>c \<in> set (window20 t s e). currency_symbol c \<or> percent_sign c \<or> isdecimal U c)"

text \<open>A word of uppercase letters \<open>A\<close> to \<open>Z\<close>.\<close>

definition ticker_word :: "pystr \<Rightarrow> bool" where
  "ticker_word w = (w \<noteq> [] \<and> list_all upper_AZ w)"

text \<open>
  On an ASCII text the tables beyond ASCII are never consulted.  Closed instances are
  evaluated with the tables that classify no further character.
\<close>

definition ascii_tables :: unicode_tables where
  "ascii_tables = \<lparr>decimal_ext = (\<lambda>c. False), alnum_ext = (\<lambda>c. False), upper_ext = (\<lambda>c. [c])\<rparr>"

section \<open>The matcher and the scan\<close>

lemma exactly5: "exactly 5 r = Seq r (Seq r (Seq r (Seq r (Seq r Eps))))"
  by (simp add: eval_nat_numeral)

lemma at_most4: "at_most 4 r = Opt (Seq r (Opt (Seq r (Opt (Seq r (Opt (Seq r Eps)))))))"
  by (simp add: eval_nat_numeral)

lemma ms_pos: "(j, g') \<in> set (ms U t r (i, g)) \<Longrightarrow> i \<le> j"
  by (induction r arbitrary: i g j g') (fastforce split: if_splits)+

lemma ms_Chr_iff:
  "(j, g') \<in> set (ms U t (Chr p) (i, g)) \<longleftrightarrow> j = Suc i \<and> g' = g \<and> i < length t \<and> p (t ! i)"
  by auto

lemma ms_Seq_iff:
  "x \<in> set (ms U t (Seq a b) s) \<longleftrightarrow> (\<exists>y \<in> set (ms U t a s). x \<in> set (ms U t b y))"
  by auto

lemma ms_exactly5_digit:
  "(j, g') \<in> set (ms U t (exactly 5 (digit U)) (i, g)) \<Longrightarrow> j = i + 5 \<and> g' = g \<and> j \<le> length t"
  by (auto simp: exactly5 digit_def split: if_splits)

lemma code_group:
  "(j, g') \<in> set (ms U t (Group (Alt (Seq (one_of ''036'') (exactly 5 (digit U)))
                      (Seq (one_of ''12'') (exactly 5 (digit U))))) (i, g))
   \<Longrightarrow> j = i + 6 \<and> g' = Some (i, i + 6) \<and> i + 6 \<le> length t \<and> t ! i \<in> {48, 49, 50, 51, 54}"
  by (auto simp: one_of_def str_def dest!: ms_exactly5_digit split: if_splits)

lemma astock_prefix:
  "(j, g') \<in> set (ms U t (Opt (Alt (istr ''SH'') (istr ''SZ''))) (i, g)) \<Longrightarrow> g' = g"
  by (auto simp: istr_def ilit_def split: if_splits)

lemma astock_suffix:
  "(j, g') \<in> set (ms U t (Opt (Seq (lit CHR ''.'') (Alt (istr ''SH'') (istr ''SZ'')))) (i, g))
   \<Longrightarrow> g' = g"
  by (auto simp: istr_def ilit_def lit_def split: if_splits)

lemma ms_WordB_iff:
  "(j, g') \<in> set (ms U t WordB (i, g)) \<longleftrightarrow> j = i \<and> g' = g \<and> boundary U t i"
  by auto

lemma astock_states:
  assumes "(e, g) \<in> set (ms U t (ASTOCK_FULL U) (i, None))"
  shows "\<exists>s. g = Some (s, s + 6) \<and> s + 6 \<le> length t \<and> t ! s \<in> {48, 49, 50, 51, 54}
             \<and> i \<le> s \<and> s + 6 \<le> e"
proof -
  from assms obtain y1 y2 y3 y4 where
    b: "y1 \<in> set (ms U t WordB (i, None))"
    and p: "y2 \<in> set (ms U t (Opt (Alt (istr ''SH'') (istr ''SZ''))) y1)"
    and c: "y3 \<in> set (ms U t (Group (Alt (Seq (one_of ''036'') (exactly 5 (digit U)))
                      (Seq (one_of ''12'') (exactly 5 (digit U))))) y2)"
    and s: "y4 \<in> set (ms U t (Opt (Seq (lit CHR ''.'') (Alt (istr ''SH'') (istr ''SZ'')))) y3)"
    and w: "(e, g) \<in> set (ms U t (Seq WordB Eps) y4)"
    unfolding ASTOCK_FULL_def seqs.simps ms_Seq_iff by blast
  obtain j1 g1 where y1: "y1 = (j1, g1)" by (cases y1)
  obtain s g2 where y2: "y2 = (s, g2)" by (cases y2)
  obtain j3 g3 where y3: "y3 = (j3, g3)" by (cases y3)
  obtain j4 g4 where y4: "y4 = (j4, g4)" by (cases y4)
  have "i \<le> j1" "j1 \<le> s"
    using ms_pos [OF b [unfolded y1]] ms_pos [OF p [unfolded y1 y2]] by simp_all
  moreover from c have g3: "g3 = Some (s, s + 6)" "s + 6 \<le> length t" "t ! s \<in> {48, 49, 50, 51, 54}"
    "j3 = s + 6"
    using code_group [OF c [unfolded y2 y3]] by simp_all
  moreover have "g4 = g3" "j3 \<le> j4"
    using astock_suffix [OF s [unfolded y3 y4]] ms_pos [OF s [unfolded y3 y4]] by simp_all
  moreover from w have "g = g4" "j4 \<le> e" unfolding y4 by (auto split: if_splits)
  ultimately show ?thesis by auto
qed

lemma set_first_occurrences [simp]: "set (first_occurrences xs) = set xs"
  by (induction xs) auto

lemma distinct_first_occurrences [simp]: "distinct (first_occurrences xs)"
  by (induction xs) auto

lemma remdups_snoc: "remdups (ys @ [a]) = filter (\<lambda>y. y \<noteq> a) (remdups ys) @ [a]"
  by (induction ys) auto

lemma first_occurrences_remdups: "first_occurrences xs = rev (remdups (rev xs))"
  by (induction xs) (simp_all add: remdups_snoc rev_filter)

lemma first_occurrences_append:
  "first_occurrences (xs @ ys) = first_occurrences xs @ filter (\<lambda>y. y \<notin> set xs) (first_occurrences ys)"
  by (induction xs) (auto intro: filter_cong)

lemma first_occurrences_disjoint:
  "set xs \<inter> set ys = {} \<Longrightarrow> first_occurrences (xs @ ys) = first_occurrences xs @ first_occurrences ys"
  by (simp add: first_occurrences_append filter_id_conv) auto

lemma insert_all_eq:
  "insert_all seen ks = seen @ filter (\<lambda>k. k \<notin> set seen) (first_occurrences ks)"
  unfolding insert_all_def
proof (induction ks arbitrary: seen)
  case Nil
  show ?case by simp
next
  case (Cons k ks)
  show ?case
  proof (cases "k \<in> set seen")
    case True
    then have "filter (\<lambda>x. x \<notin> set seen) (filter (\<lambda>y. y \<noteq> k) (first_occurrences ks))
      = filter (\<lambda>x. x \<notin> set seen) (first_occurrences ks)"
      by (auto intro: filter_cong)
    with True Cons [of seen] show ?thesis by (simp add: setdefault_def)
  next
    case False
    have "filter (\<lambda>x. x \<notin> set (seen @ [k])) (first_occurrences ks)
      = filter (\<lambda>x. x \<notin> set seen) (filter (\<lambda>y. y \<noteq> k) (first_occurrences ks))"
      by (auto intro: filter_cong)
    with False Cons [of "seen @ [k]"] show ?thesis by (simp add: setdefault_def)
  qed
qed

lemma fold_astock_step:
  "fold (astock_step t) xs seen
   = insert_all seen (map (\<lambda>m. the (group_code t m)) (filter (\<lambda>m. first_ok (group_code t m)) xs))"
  by (induction xs arbitrary: seen) (simp_all add: insert_all_def astock_step_def Let_def)

lemma fold_hk_step:
  "fold (hk_step U t) xs seen = insert_all seen (map (\<lambda>m. upper U (group0 t m)) xs)"
  by (induction xs arbitrary: seen) (simp_all add: insert_all_def hk_step_def)

lemma fold_us_step:
  "fold (us_step U t) xs seen = insert_all seen (map (group0 t) (filter (ticker_kept U t) xs))"
  by (induction xs arbitrary: seen) (simp_all add: insert_all_def us_step_def ticker_kept_def Let_def)

lemma insert_all_append: "insert_all (insert_all seen xs) ys = insert_all seen (xs @ ys)"
  by (simp add: insert_all_def)

lemma insert_all_Nil: "insert_all seen [] = seen"
  by (simp add: insert_all_def)

lemma extract_eq_first_occurrences:
  "extract_stock_codes U t scope = first_occurrences (accepted U t scope)"
proof -
  have "extract_stock_codes U t scope = insert_all [] (accepted U t scope)"
    by (simp add: extract_stock_codes_def Let_def fold_astock_step fold_hk_step fold_us_step
        accepted_def domestic_tokens_def overseas_tokens_def ticker_tokens_def
        insert_all_append insert_all_Nil)
  then show ?thesis by (simp add: insert_all_eq)
qed

lemma finditer_from_sound:
  "m \<in> set (finditer_from U r t pos) \<Longrightarrow>
   pos \<le> m_start m \<and> m_start m \<le> length t \<and>
   (\<exists>rest. ms U t r (m_start m, None) = (m_end m, m_code m) # rest)"
proof (induction U r t pos rule: finditer_from.induct)
  case (1 U r t pos)
  show ?case
  proof (cases "length t < pos")
    case True
    with "1.prems" show ?thesis by (simp add: finditer_from.simps [of U r t pos])
  next
    case False
    show ?thesis
    proof (cases "ms U t r (pos, None)")
      case Nil
      with False "1.prems" have "m \<in> set (finditer_from U r t (Suc pos))"
        by (simp add: finditer_from.simps [of U r t pos])
      with "1.IH"(1) [OF False Nil] show ?thesis by auto
    next
      case (Cons x rest)
      obtain e g where x: "x = (e, g)" by (cases x)
      from False Cons x "1.prems" consider
        "m = \<lparr>m_start = pos, m_end = e, m_code = g\<rparr>"
        | "m \<in> set (finditer_from U r t (if pos < e then e else Suc pos))"
        by (auto simp add: finditer_from.simps [of U r t pos])
      then show ?thesis
      proof cases
        case 1
        with False Cons x show ?thesis by simp
      next
        case 2
        have "pos \<le> e" using Cons x ms_pos [of e g U t r pos None] by simp
        with "1.IH"(2) [OF False Cons x [symmetric] 2] show ?thesis
          by (auto split: if_splits)
      qed
    qed
  qed
qed

lemma finditer_from_complete:
  "pos \<le> i \<Longrightarrow> i \<le> length t \<Longrightarrow> ms U t r (i, None) = (e, g) # rest \<Longrightarrow>
   (\<forall>i e g rest j. ms U t r (i, None) = (e, g) # rest \<longrightarrow>
       i < e \<and> (i < j \<and> j < e \<longrightarrow> ms U t r (j, None) = [])) \<Longrightarrow>
   \<lparr>m_start = i, m_end = e, m_code = g\<rparr> \<in> set (finditer_from U r t pos)"
proof (induction U r t pos rule: finditer_from.induct)
  case (1 U r t pos)
  note pi = "1.prems"(1) and il = "1.prems"(2) and mi = "1.prems"(3) and sep = "1.prems"(4)
  from pi il have le: "\<not> length t < pos" by simp
  show ?case
  proof (cases "pos = i")
    case True
    with le mi show ?thesis by (subst finditer_from.simps) simp
  next
    case False
    with pi have lt: "pos < i" by simp
    show ?thesis
    proof (cases "ms U t r (pos, None)")
      case Nil
      from lt have "Suc pos \<le> i" by simp
      from "1.IH"(1) [OF le Nil this il mi sep]
      have "\<lparr>m_start = i, m_end = e, m_code = g\<rparr> \<in> set (finditer_from U r t (Suc pos))" .
      with le Nil show ?thesis by (simp add: finditer_from.simps [of U r t pos])
    next
      case (Cons x xs)
      obtain e' g' where x: "x = (e', g')" by (cases x)
      from sep Cons x have pe: "pos < e'" by blast
      have "e' \<le> i"
      proof (rule ccontr)
        assume "\<not> e' \<le> i"
        with lt sep Cons x have "ms U t r (i, None) = []" by (metis not_le_imp_less)
        with mi show False by simp
      qed
      with pe have "(if pos < e' then e' else Suc pos) \<le> i" by simp
      from "1.IH"(2) [OF le Cons x [symmetric] this il mi sep]
      have "\<lparr>m_start = i, m_end = e, m_code = g\<rparr>
              \<in> set (finditer_from U r t (if pos < e' then e' else Suc pos))" .
      with le Cons x show ?thesis by (simp add: finditer_from.simps [of U r t pos])
    qed
  qed
qed

lemma add_Sucs:
  "s + 1 = Suc s" "s + 2 = Suc (Suc s)" "s + 3 = Suc (Suc (Suc s))"
  "s + 4 = Suc (Suc (Suc (Suc s)))" "s + 5 = Suc (Suc (Suc (Suc (Suc s))))"
  "s + 6 = Suc (Suc (Suc (Suc (Suc (Suc s)))))"
  "s + 7 = Suc (Suc (Suc (Suc (Suc (Suc (Suc s))))))"
  by simp_all

lemma hk_ms:
  "ms U t (HKSTOCK_FULL U) (s, g) = (if hk_token U t s then [(s + 7, g)] else [])"
  by (auto simp add: HKSTOCK_FULL_def istr_def ilit_def exactly5 digit_def hk_token_def add_Sucs)

lemma ms_Seq_pair:
  "(j, g') \<in> set (ms U t (Seq a b) (i, g)) \<longleftrightarrow>
   (\<exists>k h. (k, h) \<in> set (ms U t a (i, g)) \<and> (j, g') \<in> set (ms U t b (k, h)))"
  by auto

lemma ms_Eps_iff: "(j, g') \<in> set (ms U t Eps (i, g)) \<longleftrightarrow> j = i \<and> g' = g"
  by auto

lemma ms_at_most_iff:
  "(j, g') \<in> set (ms U t (at_most n (Chr p)) (i, g)) \<longleftrightarrow>
   g' = g \<and> i \<le> j \<and> j \<le> i + n \<and> (\<forall>k. i \<le> k \<and> k < j \<longrightarrow> k < length t \<and> p (t ! k))"
proof (induction n arbitrary: i)
  case 0
  show ?case by auto
next
  case (Suc n)
  have "(j, g') \<in> set (ms U t (at_most (Suc n) (Chr p)) (i, g)) \<longleftrightarrow>
        (j = i \<and> g' = g) \<or> (i < length t \<and> p (t ! i) \<and> (j, g') \<in> set (ms U t (at_most n (Chr p)) (Suc i, g)))"
    by auto
  also have "\<dots> \<longleftrightarrow> g' = g \<and> i \<le> j \<and> j \<le> i + Suc n
                 \<and> (\<forall>k. i \<le> k \<and> k < j \<longrightarrow> k < length t \<and> p (t ! k))"
    unfolding Suc.IH
  proof (intro iffI; elim disjE conjE)
    assume "j = i" "g' = g"
    then show "g' = g \<and> i \<le> j \<and> j \<le> i + Suc n \<and> (\<forall>k. i \<le> k \<and> k < j \<longrightarrow> k < length t \<and> p (t ! k))"
      by auto
  next
    assume h: "i < length t" "p (t ! i)" "g' = g" "Suc i \<le> j" "j \<le> Suc i + n"
      "\<forall>k. Suc i \<le> k \<and> k < j \<longrightarrow> k < length t \<and> p (t ! k)"
    have "k < length t \<and> p (t ! k)" if "i \<le> k" "k < j" for k
    proof (cases "k = i")
      case True
      with h show ?thesis by simp
    next
      case False
      with that h show ?thesis by simp
    qed
    with h show "g' = g \<and> i \<le> j \<and> j \<le> i + Suc n \<and> (\<forall>k. i \<le> k \<and> k < j \<longrightarrow> k < length t \<and> p (t ! k))"
      by simp
  next
    assume h: "g' = g" "i \<le> j" "j \<le> i + Suc n" "\<forall>k. i \<le> k \<and> k < j \<longrightarrow> k < length t \<and> p (t ! k)"
    show "j = i \<and> g' = g \<or>
          i < length t \<and> p (t ! i) \<and> g' = g \<and> Suc i \<le> j \<and> j \<le> Suc i + n
            \<and> (\<forall>k. Suc i \<le> k \<and> k < j \<longrightarrow> k < length t \<and> p (t ! k))"
    proof (cases "j = i")
      case True
      with h show ?thesis by simp
    next
      case False
      with h have "i < j" by simp
      with h have "i < length t \<and> p (t ! i)" by blast
      with h \<open>i < j\<close> show ?thesis by simp
    qed
  qed
  finally show ?case .
qed

lemma us_ms_iff:
  "(e, g') \<in> set (ms U t USSTOCK_FULL (s, g)) \<longleftrightarrow> g' = g \<and> ticker_token U t s e"
proof -
  have "(e, g') \<in> set (ms U t USSTOCK_FULL (s, g)) \<longleftrightarrow>
        boundary U t s \<and> s < length t \<and> upper_AZ (t ! s) \<and> g' = g \<and> Suc s \<le> e \<and> e \<le> Suc s + 4
        \<and> (\<forall>k. Suc s \<le> k \<and> k < e \<longrightarrow> k < length t \<and> upper_AZ (t ! k)) \<and> boundary U t e"
    unfolding USSTOCK_FULL_def seqs.simps
    by (simp add: ms_Seq_pair ms_WordB_iff ms_Chr_iff ms_at_most_iff ms_Eps_iff del: ms.simps) auto
  also have "\<dots> \<longleftrightarrow> g' = g \<and> ticker_token U t s e"
  proof (intro iffI; elim conjE)
    assume h: "boundary U t s" "s < length t" "upper_AZ (t ! s)" "g' = g" "Suc s \<le> e" "e \<le> Suc s + 4"
      "\<forall>k. Suc s \<le> k \<and> k < e \<longrightarrow> k < length t \<and> upper_AZ (t ! k)" "boundary U t e"
    have a: "upper_AZ (t ! k) \<and> k < length t" if "s \<le> k" "k < e" for k
      using that h by (cases "k = s") auto
    from h have "s \<le> e - 1" "e - 1 < e" by simp_all
    from a [OF this] h have "e \<le> length t" by auto
    with h a show "g' = g \<and> ticker_token U t s e" by (simp add: ticker_token_def)
  next
    assume "g' = g" "ticker_token U t s e"
    then show "boundary U t s \<and> s < length t \<and> upper_AZ (t ! s) \<and> g' = g \<and> Suc s \<le> e \<and> e \<le> Suc s + 4
        \<and> (\<forall>k. Suc s \<le> k \<and> k < e \<longrightarrow> k < length t \<and> upper_AZ (t ! k)) \<and> boundary U t e"
      by (auto simp: ticker_token_def)
  qed
  finally show ?thesis .
qed

lemma upper_AZ_word: "upper_AZ c \<Longrightarrow> isword U c"
  by (simp add: upper_AZ_def isword_def isalnum_def)

lemma no_boundary_inside:
  "isword U (t ! (j - 1)) \<Longrightarrow> isword U (t ! j) \<Longrightarrow> 0 < j \<Longrightarrow> j < length t \<Longrightarrow> \<not> boundary U t j"
  by (simp add: boundary_def)

lemma ticker_token_unique:
  assumes "ticker_token U t s e" "ticker_token U t s e'"
  shows "e = e'"
proof -
  have aux: False if a: "ticker_token U t s x" and b: "ticker_token U t s y" and "x < y" for x y
  proof -
    from a have "s \<le> x - 1" "x - 1 < y" "0 < x" using \<open>x < y\<close> by (auto simp: ticker_token_def)
    with b have "isword U (t ! (x - 1))" by (auto simp: ticker_token_def intro: upper_AZ_word)
    moreover from a b \<open>x < y\<close> have "isword U (t ! x)" "x < length t"
      by (auto simp: ticker_token_def intro!: upper_AZ_word)
    ultimately have "\<not> boundary U t x" using \<open>0 < x\<close> by (intro no_boundary_inside)
    with a show False by (simp add: ticker_token_def)
  qed
  show ?thesis using aux [of e e'] aux [of e' e] assms by (cases e e' rule: linorder_cases) auto
qed

lemma us_first_iff:
  "(\<exists>rest. ms U t USSTOCK_FULL (s, None) = (e, g) # rest) \<longleftrightarrow> g = None \<and> ticker_token U t s e"
proof
  assume "\<exists>rest. ms U t USSTOCK_FULL (s, None) = (e, g) # rest"
  then have "(e, g) \<in> set (ms U t USSTOCK_FULL (s, None))" by auto
  then show "g = None \<and> ticker_token U t s e" by (simp only: us_ms_iff)
next
  assume h: "g = None \<and> ticker_token U t s e"
  then have "(e, g) \<in> set (ms U t USSTOCK_FULL (s, None))" by (simp only: us_ms_iff)
  then obtain x rest where m: "ms U t USSTOCK_FULL (s, None) = x # rest"
    by (cases "ms U t USSTOCK_FULL (s, None)") auto
  obtain e' g' where x: "x = (e', g')" by (cases x)
  from m x have "(e', g') \<in> set (ms U t USSTOCK_FULL (s, None))" by simp
  then have "g' = None" "ticker_token U t s e'" by (simp_all only: us_ms_iff)
  with h have "x = (e, g)" using x ticker_token_unique by blast
  with m show "\<exists>rest. ms U t USSTOCK_FULL (s, None) = (e, g) # rest" by simp
qed

lemma us_separate:
  assumes "ticker_token U t s e" "s < j" "j < e"
  shows "ms U t USSTOCK_FULL (j, None) = []"
proof (cases "ms U t USSTOCK_FULL (j, None)")
  case Nil
  then show ?thesis .
next
  case (Cons x rest)
  obtain e' g' where "x = (e', g')" by (cases x)
  with Cons have "ticker_token U t j e'" using us_first_iff [of U t j e' g'] by auto
  then have b: "boundary U t j" by (simp add: ticker_token_def)
  from assms have "s \<le> j - 1" "j - 1 < e" by auto
  with assms have "upper_AZ (t ! (j - 1))" unfolding ticker_token_def by blast
  with assms have "isword U (t ! (j - 1))" "isword U (t ! j)" "0 < j" "j < length t"
    by (auto simp: ticker_token_def intro!: upper_AZ_word)
  then have "\<not> boundary U t j" by (rule no_boundary_inside)
  with b show ?thesis by simp
qed

lemma us_finditer_iff:
  "m \<in> set (finditer U USSTOCK_FULL t) \<longleftrightarrow> m_code m = None \<and> ticker_token U t (m_start m) (m_end m)"
proof
  assume "m \<in> set (finditer U USSTOCK_FULL t)"
  from finditer_from_sound [OF this [unfolded finditer_def]]
  show "m_code m = None \<and> ticker_token U t (m_start m) (m_end m)"
    using us_first_iff [of U t "m_start m" "m_end m" "m_code m"] by simp
next
  assume h: "m_code m = None \<and> ticker_token U t (m_start m) (m_end m)"
  then obtain rest where r: "ms U t USSTOCK_FULL (m_start m, None) = (m_end m, m_code m) # rest"
    using us_first_iff [of U t "m_start m" "m_end m" "m_code m"] by auto
  have sep: "\<forall>i e g rest j. ms U t USSTOCK_FULL (i, None) = (e, g) # rest \<longrightarrow>
       i < e \<and> (i < j \<and> j < e \<longrightarrow> ms U t USSTOCK_FULL (j, None) = [])"
  proof (intro allI impI)
    fix i e g rest j
    assume "ms U t USSTOCK_FULL (i, None) = (e, g) # rest"
    then have tt: "ticker_token U t i e" using us_first_iff [of U t i e g] by auto
    then show "i < e \<and> (i < j \<and> j < e \<longrightarrow> ms U t USSTOCK_FULL (j, None) = [])"
      using us_separate [OF tt] by (simp add: ticker_token_def)
  qed
  from h have "m_start m \<le> length t" by (simp add: ticker_token_def)
  from finditer_from_complete [OF _ this r sep, of 0]
  show "m \<in> set (finditer U USSTOCK_FULL t)" by (cases m) (simp add: finditer_def)
qed

section \<open>The shape of the accepted tokens\<close>

lemma slice_nth: "b \<le> length t \<Longrightarrow> slice t a b = map (nth t) [a..<b]"
  by (auto simp: slice_def list_eq_iff_nth_eq)

lemma length_slice: "b \<le> length t \<Longrightarrow> length (slice t a b) = b - a"
  by (simp add: slice_def)

lemma astock_code:
  assumes "m \<in> set (finditer U (ASTOCK_FULL U) t)"
  shows "\<exists>s. group_code t m = Some (slice t s (s + 6)) \<and> s + 6 \<le> length t
             \<and> t ! s \<in> {48, 49, 50, 51, 54} \<and> m_start m < m_end m"
proof -
  from finditer_from_sound [OF assms [unfolded finditer_def]] obtain rest where
    "ms U t (ASTOCK_FULL U) (m_start m, None) = (m_end m, m_code m) # rest" by blast
  then have "(m_end m, m_code m) \<in> set (ms U t (ASTOCK_FULL U) (m_start m, None))" by simp
  from astock_states [OF this] obtain s where
    s: "m_code m = Some (s, s + 6)" "s + 6 \<le> length t" "t ! s \<in> {48, 49, 50, 51, 54}"
       "m_start m \<le> s" "s + 6 \<le> m_end m" by blast
  then have "group_code t m = Some (slice t s (s + 6))" by (simp add: group_code_def)
  with s show ?thesis by auto
qed

lemma domestic_token_shape:
  assumes "w \<in> set (domestic_tokens U t)"
  shows "length w = 6 \<and> w ! 0 \<in> allowed_first"
proof -
  from assms obtain m where m: "m \<in> set (finditer U (ASTOCK_FULL U) t)"
    and w: "w = the (group_code t m)"
    by (auto simp: domestic_tokens_def)
  from astock_code [OF m] obtain s where
    s: "group_code t m = Some (slice t s (s + 6))" "s + 6 \<le> length t"
       "t ! s \<in> {48, 49, 50, 51, 54}" by blast
  from s w have "w = slice t s (s + 6)" by simp
  with s show ?thesis by (auto simp: slice_def allowed_first_def str_def)
qed

lemma decimal_not_upper_AZ: "isdecimal U c \<Longrightarrow> \<not> upper_AZ c"
  by (auto simp: isdecimal_def upper_AZ_def split: if_splits)

lemma upper_char_decimal: "isdecimal U c \<Longrightarrow> upper_char U c = [c]"
  by (auto simp: upper_char_def isdecimal_def split: if_splits)

lemma upper_char_H: "ignorecase (of_char CHR ''H'') c \<Longrightarrow> upper_char U c = [72]"
  by (auto simp: ignorecase_def ascii_lower_def upper_char_def split: if_splits)

lemma hk_finditer_iff:
  "m \<in> set (finditer U (HKSTOCK_FULL U) t) \<longleftrightarrow>
   hk_token U t (m_start m) \<and> m_end m = m_start m + 7 \<and> m_code m = None"
proof
  assume "m \<in> set (finditer U (HKSTOCK_FULL U) t)"
  from finditer_from_sound [OF this [unfolded finditer_def]]
  show "hk_token U t (m_start m) \<and> m_end m = m_start m + 7 \<and> m_code m = None"
    by (auto simp: hk_ms split: if_splits)
next
  assume h: "hk_token U t (m_start m) \<and> m_end m = m_start m + 7 \<and> m_code m = None"
  then have r: "ms U t (HKSTOCK_FULL U) (m_start m, None) = (m_end m, m_code m) # []"
    by (simp add: hk_ms)
  have sep: "\<forall>i e g rest j. ms U t (HKSTOCK_FULL U) (i, None) = (e, g) # rest \<longrightarrow>
       i < e \<and> (i < j \<and> j < e \<longrightarrow> ms U t (HKSTOCK_FULL U) (j, None) = [])"
  proof (intro allI impI)
    fix i e g rest j
    assume "ms U t (HKSTOCK_FULL U) (i, None) = (e, g) # rest"
    then have tk: "hk_token U t i" and e: "e = i + 7" by (auto simp: hk_ms split: if_splits)
    have "\<not> hk_token U t j" if "i < j" "j < e"
    proof
      assume tj: "hk_token U t j"
      then have hj: "ignorecase (of_char CHR ''H'') (t ! j)" by (simp add: hk_token_def)
      from that e consider "j = i + 1" | "j = i + 2" | "j = i + 3" | "j = i + 4" | "j = i + 5" | "j = i + 6"
        by linarith
      then show False
      proof cases
        case 1
        with tk have "ignorecase (of_char CHR ''K'') (t ! j)" by (simp add: hk_token_def)
        with hj show False by (auto simp: ignorecase_def ascii_lower_def split: if_splits)
      qed (use tk hj in \<open>auto simp: hk_token_def ignorecase_def ascii_lower_def isdecimal_def split: if_splits\<close>)
    qed
    with e show "i < e \<and> (i < j \<and> j < e \<longrightarrow> ms U t (HKSTOCK_FULL U) (j, None) = [])"
      by (simp add: hk_ms)
  qed
  from h have "m_start m \<le> length t" by (simp add: hk_token_def)
  from finditer_from_complete [OF _ this r sep, of 0]
  show "m \<in> set (finditer U (HKSTOCK_FULL U) t)" by (cases m) (simp add: finditer_def)
qed

lemma overseas_token_shape:
  assumes "w \<in> set (overseas_tokens U t)"
  shows "w ! 0 = 72 \<and> w \<noteq> [] \<and> (\<exists>c \<in> set w. isdecimal U c)"
proof -
  from assms obtain m where m: "m \<in> set (finditer U (HKSTOCK_FULL U) t)"
    and w: "w = upper U (group0 t m)"
    by (auto simp: overseas_tokens_def)
  from m have tk: "hk_token U t (m_start m)" and e: "m_end m = m_start m + 7"
    by (simp_all add: hk_finditer_iff)
  define s where "s = m_start m"
  from tk have "slice t (m_start m) (m_start m + 7) = map (nth t) [m_start m..<m_start m + 7]"
    by (intro slice_nth) (simp add: hk_token_def)
  with e have "group0 t m = map (nth t) [s..<s + 7]"
    unfolding group0_def s_def by simp
  also have "[s..<s + 7] = [s, s + 1, s + 2, s + 3, s + 4, s + 5, s + 6]"
    by (simp add: upt_rec [of s] upt_rec [of "Suc _"] )
  finally have g: "group0 t m = [t ! s, t ! (s + 1), t ! (s + 2), t ! (s + 3), t ! (s + 4), t ! (s + 5), t ! (s + 6)]"
    by simp
  from tk have "upper_char U (t ! s) = [72]" "upper_char U (t ! (s + 6)) = [t ! (s + 6)]" "isdecimal U (t ! (s + 6))"
    unfolding s_def by (auto simp: hk_token_def intro: upper_char_H upper_char_decimal)
  with w g show ?thesis by (auto simp: upper_def)
qed

lemma ticker_token_shape:
  assumes "w \<in> set (ticker_tokens U t)"
  shows "w \<noteq> [] \<and> length w \<le> 5 \<and> list_all upper_AZ w"
proof -
  from assms obtain m where m: "m \<in> set (finditer U USSTOCK_FULL t)" and w: "w = group0 t m"
    by (auto simp: ticker_tokens_def)
  from m have tk: "ticker_token U t (m_start m) (m_end m)" by (simp add: us_finditer_iff)
  then have "w = map (nth t) [m_start m..<m_end m]"
    unfolding w group0_def by (intro slice_nth) (simp add: ticker_token_def)
  with tk show ?thesis by (auto simp: ticker_token_def list_all_iff)
qed

lemma set_extract:
  "set (extract_stock_codes U t scope) = set (accepted U t scope)"
  by (simp add: extract_eq_first_occurrences)

lemma accepted_cases:
  assumes "w \<in> set (accepted U t scope)"
  obtains "w \<in> set (domestic_tokens U t)"
  | "w \<in> set (overseas_tokens U t)" "scope \<in> {''hk'', ''mixed''}"
  | "w \<in> set (ticker_tokens U t)" "scope \<in> {''us'', ''mixed''}"
  using assms by (auto simp: accepted_def split: if_splits)

section \<open>Evaluation on concrete texts\<close>

lemma ignorecase_app:
  "ignorecase p = (\<lambda>x. ascii_lower x = ascii_lower p \<and> x < 128
      \<or> ascii_lower p = 115 \<and> x = 383
      \<or> ascii_lower p = 107 \<and> x = 8490
      \<or> ascii_lower p = 105 \<and> (x = 304 \<or> x = 305))"
  by (rule ext) (simp add: ignorecase_def)

lemmas run_extract =
  extract_stock_codes_def finditer_def finditer_from.simps ASTOCK_FULL_def HKSTOCK_FULL_def
  USSTOCK_FULL_def str_def boundary_def isword_def isalnum_def isdecimal_def istr_def ilit_def
  lit_def one_of_def digit_def ignorecase_app ascii_lower_def astock_step_def hk_step_def
  us_step_def us_context_def group0_def group_code_def slice_def first_ok_def VALID_FIRST_def
  setdefault_def upper_def upper_char_def re_search_def PRICE_OR_PCT_def price_char_def
  upper_AZ_def Let_def exactly5 at_most4

section \<open>The claims\<close>

lemma six_digits_first:
  assumes "w \<in> set (extract_stock_codes U t scope)" "six_digits U w"
  shows "w ! 0 \<in> allowed_first"
proof -
  from assms(2) have d: "isdecimal U (w ! 0)" "w \<noteq> []"
    by (auto simp: six_digits_def list_all_length)
  from assms(1) have "w \<in> set (accepted U t scope)" by (simp add: set_extract)
  then show ?thesis
  proof (cases rule: accepted_cases)
    case 1
    then show ?thesis by (simp add: domestic_token_shape)
  next
    case 2
    then have "w ! 0 = 72" by (simp add: overseas_token_shape)
    with d show ?thesis by (simp add: isdecimal_def)
  next
    case 3
    then have "list_all upper_AZ w" by (simp add: ticker_token_shape)
    with d have "upper_AZ (w ! 0)" by (simp add: list_all_length)
    with d show ?thesis using decimal_not_upper_AZ by blast
  qed
qed

text \<open>
  C1.  Whatever the text and the market scope, every six-digit numeric token in the
  output of the extractor has a leading digit among 0, 1, 2, 3, 6; in particular the
  token 400001 is never in the output.
\<close>

theorem leading_digit_allow_list:
  "(\<forall>w \<in> set (extract_stock_codes U t scope). six_digits U w \<longrightarrow> w ! 0 \<in> allowed_first)
   \<and> str ''400001'' \<notin> set (extract_stock_codes U t scope)"
proof
  show a: "\<forall>w \<in> set (extract_stock_codes U t scope). six_digits U w \<longrightarrow> w ! 0 \<in> allowed_first"
    using six_digits_first by blast
  have "six_digits U (str ''400001'')" "str ''400001'' ! 0 \<notin> allowed_first"
    by (simp_all add: six_digits_def str_def isdecimal_def allowed_first_def)
  with a show "str ''400001'' \<notin> set (extract_stock_codes U t scope)" by blast
qed

theorem leading_digit_allow_list_witness:
  "str ''600519'' \<in> set (extract_stock_codes ascii_tables (str ''600519 400001 SZ000001'') ''mixed'')
   \<and> six_digits ascii_tables (str ''600519'')
   \<and> str ''600519'' ! 0 \<in> allowed_first
   \<and> str ''400001'' \<notin> set (extract_stock_codes ascii_tables (str ''600519 400001 SZ000001'') ''mixed'')"
proof -
  have e: "extract_stock_codes ascii_tables (str ''600519 400001 SZ000001'') ''mixed''
           = [str ''600519'', str ''000001'']"
    by (simp add: run_extract)
  have s: "six_digits ascii_tables (str ''600519'')"
    by (simp add: six_digits_def str_def isdecimal_def)
  from e have m: "str ''600519'' \<in> set (extract_stock_codes ascii_tables (str ''600519 400001 SZ000001'') ''mixed'')"
    by simp
  from leading_digit_allow_list [of ascii_tables "str ''600519 400001 SZ000001''" "''mixed''"] m s
  show ?thesis by blast
qed

lemma first_occurrences_snoc:
  "first_occurrences (ks @ [k]) = (if k \<in> set ks then first_occurrences ks else first_occurrences ks @ [k])"
  by (simp add: first_occurrences_append)

lemma domestic_overseas_disjoint: "set (domestic_tokens U t) \<inter> set (overseas_tokens U t) = {}"
proof -
  have False if a: "w \<in> set (domestic_tokens U t)" and b: "w \<in> set (overseas_tokens U t)" for w
  proof -
    from a have "w ! 0 \<in> allowed_first" by (simp add: domestic_token_shape)
    moreover from b have "w ! 0 = 72" by (simp add: overseas_token_shape)
    ultimately show False by (simp add: allowed_first_def str_def)
  qed
  then show ?thesis by blast
qed

lemma domestic_ticker_disjoint: "set (domestic_tokens U t) \<inter> set (ticker_tokens U t) = {}"
proof -
  have False if a: "w \<in> set (domestic_tokens U t)" and b: "w \<in> set (ticker_tokens U t)" for w
  proof -
    from a have "w ! 0 \<in> allowed_first" by (simp add: domestic_token_shape)
    moreover from b have "upper_AZ (w ! 0)" by (auto simp: list_all_length dest!: ticker_token_shape)
    ultimately show False by (auto simp: allowed_first_def str_def upper_AZ_def)
  qed
  then show ?thesis by blast
qed

lemma overseas_ticker_disjoint: "set (overseas_tokens U t) \<inter> set (ticker_tokens U t) = {}"
proof -
  have False if a: "w \<in> set (overseas_tokens U t)" and b: "w \<in> set (ticker_tokens U t)" for w
  proof -
    from a obtain c where "c \<in> set w" "isdecimal U c" using overseas_token_shape by blast
    moreover from b have "\<forall>c \<in> set w. upper_AZ c" by (auto simp: list_all_iff dest!: ticker_token_shape)
    ultimately show False using decimal_not_upper_AZ by blast
  qed
  then show ?thesis by blast
qed

lemma extract_by_category:
  "extract_stock_codes U t scope =
     first_occurrences (domestic_tokens U t)
     @ first_occurrences (if scope \<in> {''hk'', ''mixed''} then overseas_tokens U t else [])
     @ first_occurrences (if scope \<in> {''us'', ''mixed''} then ticker_tokens U t else [])"
proof -
  let ?H = "if scope \<in> {''hk'', ''mixed''} then overseas_tokens U t else []"
  let ?T = "if scope \<in> {''us'', ''mixed''} then ticker_tokens U t else []"
  have 1: "set ?H \<inter> set ?T = {}" using overseas_ticker_disjoint [of U t] by auto
  have 2: "set (domestic_tokens U t) \<inter> set (?H @ ?T) = {}"
    using domestic_overseas_disjoint [of U t] domestic_ticker_disjoint [of U t] by auto
  have "extract_stock_codes U t scope = first_occurrences (domestic_tokens U t @ ?H @ ?T)"
    by (simp only: extract_eq_first_occurrences accepted_def)
  also have "\<dots> = first_occurrences (domestic_tokens U t) @ first_occurrences (?H @ ?T)"
    using 2 by (rule first_occurrences_disjoint)
  also have "first_occurrences (?H @ ?T) = first_occurrences ?H @ first_occurrences ?T"
    using 1 by (rule first_occurrences_disjoint)
  finally show ?thesis .
qed

text \<open>
  C2.  The output of the extractor has no duplicates and is the list of first
  occurrences of the accepted tokens taken in insertion order: the domestic tokens,
  then (scope hk or mixed) the overseas tokens, then (scope us or mixed) the tickers,
  each category in match order.  Inserting a token that is already present changes
  nothing, and a new token goes to the end.  No token belongs to two categories, so
  the output is the first occurrences of the domestic tokens, followed by those of the
  overseas tokens, followed by those of the tickers.  For the text
  \<open>600519, 000001, 300750\<close> and scope cn the output is exactly these three codes in
  this order, and so it is when the codes carry exchange markers and one of them comes
  twice.
\<close>

theorem ordered_deduplicated_output:
  "distinct (extract_stock_codes U t scope)
   \<and> extract_stock_codes U t scope = first_occurrences (accepted U t scope)
   \<and> first_occurrences (ks @ [k])
       = (if k \<in> set ks then first_occurrences ks else first_occurrences ks @ [k])
   \<and> extract_stock_codes U t scope =
       first_occurrences (domestic_tokens U t)
       @ first_occurrences (if scope \<in> {''hk'', ''mixed''} then overseas_tokens U t else [])
       @ first_occurrences (if scope \<in> {''us'', ''mixed''} then ticker_tokens U t else [])
   \<and> extract_stock_codes U (str ''600519, 000001, 300750'') ''cn''
       = [str ''600519'', str ''000001'', str ''300750'']
   \<and> extract_stock_codes U (str ''Picks: SH600519, 000001.SZ and 300750. Again 000001.'') ''cn''
       = [str ''600519'', str ''000001'', str ''300750'']"
proof (intro conjI)
  show "distinct (extract_stock_codes U t scope)"
    by (simp add: extract_eq_first_occurrences)
  show "extract_stock_codes U t scope = first_occurrences (accepted U t scope)"
    by (rule extract_eq_first_occurrences)
  show "first_occurrences (ks @ [k])
       = (if k \<in> set ks then first_occurrences ks else first_occurrences ks @ [k])"
    by (rule first_occurrences_snoc)
  show "extract_stock_codes U t scope =
       first_occurrences (domestic_tokens U t)
       @ first_occurrences (if scope \<in> {''hk'', ''mixed''} then overseas_tokens U t else [])
       @ first_occurrences (if scope \<in> {''us'', ''mixed''} then ticker_tokens U t else [])"
    by (rule extract_by_category)
  show "extract_stock_codes U (str ''600519, 000001, 300750'') ''cn''
       = [str ''600519'', str ''000001'', str ''300750'']"
    by (simp add: run_extract)
  show "extract_stock_codes U (str ''Picks: SH600519, 000001.SZ and 300750. Again 000001.'') ''cn''
       = [str ''600519'', str ''000001'', str ''300750'']"
    by (simp add: run_extract)
qed

lemma finditer_Chr_empty:
  "finditer_from U (Chr p) t pos = [] \<longleftrightarrow> (\<forall>k. pos \<le> k \<and> k < length t \<longrightarrow> \<not> p (t ! k))"
proof (induction U "Chr p" t pos rule: finditer_from.induct)
  case (1 U t pos)
  show ?case
  proof (cases "length t < pos")
    case True
    then show ?thesis by (subst finditer_from.simps) auto
  next
    case False
    show ?thesis
    proof (cases "pos < length t \<and> p (t ! pos)")
      case True
      then show ?thesis by (subst finditer_from.simps) auto
    next
      case no: False
      then have nil: "ms U t (Chr p) (pos, None) = []" by simp
      have "finditer_from U (Chr p) t pos = finditer_from U (Chr p) t (Suc pos)"
        using False nil by (subst finditer_from.simps) simp
      also have "\<dots> = [] \<longleftrightarrow> (\<forall>k. Suc pos \<le> k \<and> k < length t \<longrightarrow> \<not> p (t ! k))"
        using "1.hyps"(1) [OF False nil] .
      also have "\<dots> \<longleftrightarrow> (\<forall>k. pos \<le> k \<and> k < length t \<longrightarrow> \<not> p (t ! k))"
      proof (intro iffI allI impI)
        fix k assume a: "\<forall>k. Suc pos \<le> k \<and> k < length t \<longrightarrow> \<not> p (t ! k)" and b: "pos \<le> k \<and> k < length t"
        show "\<not> p (t ! k)"
        proof (cases "k = pos")
          case True
          with no b show ?thesis by simp
        next
          case False
          with a b show ?thesis by simp
        qed
      next
        fix k assume "\<forall>k. pos \<le> k \<and> k < length t \<longrightarrow> \<not> p (t ! k)" "Suc pos \<le> k \<and> k < length t"
        then show "\<not> p (t ! k)" by simp
      qed
      finally show ?thesis .
    qed
  qed
qed

lemma re_search_Chr: "re_search U (Chr p) t \<noteq> None \<longleftrightarrow> (\<exists>c \<in> set t. p c)"
proof -
  have "re_search U (Chr p) t \<noteq> None \<longleftrightarrow> finditer_from U (Chr p) t 0 \<noteq> []"
    by (simp add: re_search_def finditer_def split: list.splits)
  also have "\<dots> \<longleftrightarrow> (\<exists>k < length t. p (t ! k))"
    by (auto simp: finditer_Chr_empty)
  also have "\<dots> \<longleftrightarrow> (\<exists>c \<in> set t. p c)"
    by (metis in_set_conv_nth)
  finally show ?thesis .
qed

lemma us_context_window: "us_context t m = window20 t (m_start m) (m_end m)"
proof -
  have "nat (max 0 (int (m_start m) - 20)) = m_start m - 20" by arith
  then show ?thesis by (simp add: us_context_def window20_def slice_def Let_def min_def)
qed

lemma price_char_iff: "price_char U c \<longleftrightarrow> currency_symbol c \<or> percent_sign c \<or> isdecimal U c"
  by (auto simp: price_char_def currency_symbol_def percent_sign_def)

lemma ticker_kept_iff:
  "ticker_kept U t m \<longleftrightarrow> price_mark_near U t (m_start m) (m_end m)"
  unfolding ticker_kept_def PRICE_OR_PCT_def us_context_window price_mark_near_def re_search_Chr
  by (simp add: price_char_iff)

lemma ticker_word_sources:
  assumes "w \<in> set (accepted U t scope)" "ticker_word w"
  shows "w \<in> set (ticker_tokens U t) \<and> scope \<in> {''us'', ''mixed''}"
  using assms(1)
proof (cases rule: accepted_cases)
  case 1
  then have "w ! 0 \<in> allowed_first" by (simp add: domestic_token_shape)
  moreover from assms(2) have "upper_AZ (w ! 0)" by (simp add: ticker_word_def list_all_length)
  ultimately show ?thesis by (auto simp: allowed_first_def str_def upper_AZ_def)
next
  case 2
  then obtain c where "c \<in> set w" "isdecimal U c" using overseas_token_shape by blast
  with assms(2) show ?thesis using decimal_not_upper_AZ by (auto simp: ticker_word_def list_all_iff)
next
  case 3
  then show ?thesis by simp
qed

lemma ticker_in_output_iff:
  assumes "scope \<in> {''us'', ''mixed''}" "ticker_word w"
  shows "w \<in> set (extract_stock_codes U t scope) \<longleftrightarrow>
         (\<exists>s. ticker_token U t s (s + length w) \<and> slice t s (s + length w) = w
              \<and> price_mark_near U t s (s + length w))"
proof
  assume "w \<in> set (extract_stock_codes U t scope)"
  then have "w \<in> set (accepted U t scope)" by (simp add: set_extract)
  with assms(2) have "w \<in> set (ticker_tokens U t)" using ticker_word_sources by blast
  then obtain m where m: "m \<in> set (finditer U USSTOCK_FULL t)" "ticker_kept U t m"
    and w: "w = group0 t m"
    by (auto simp: ticker_tokens_def)
  from m have tk: "ticker_token U t (m_start m) (m_end m)" by (simp add: us_finditer_iff)
  then have "length w = m_end m - m_start m" "m_start m < m_end m"
    unfolding w group0_def by (simp_all add: length_slice ticker_token_def)
  then have e: "m_end m = m_start m + length w" by simp
  from tk m(2) w show "\<exists>s. ticker_token U t s (s + length w) \<and> slice t s (s + length w) = w
              \<and> price_mark_near U t s (s + length w)"
    unfolding ticker_kept_iff e group0_def by (intro exI [of _ "m_start m"]) simp
next
  assume "\<exists>s. ticker_token U t s (s + length w) \<and> slice t s (s + length w) = w
              \<and> price_mark_near U t s (s + length w)"
  then obtain s where s: "ticker_token U t s (s + length w)" "slice t s (s + length w) = w"
    "price_mark_near U t s (s + length w)" by blast
  let ?m = "\<lparr>m_start = s, m_end = s + length w, m_code = None\<rparr>"
  from s have "?m \<in> set (finditer U USSTOCK_FULL t)" "ticker_kept U t ?m" "group0 t ?m = w"
    by (simp_all add: us_finditer_iff ticker_kept_iff group0_def)
  then have "w \<in> set (ticker_tokens U t)" unfolding ticker_tokens_def by force
  with assms(1) show "w \<in> set (extract_stock_codes U t scope)"
    by (auto simp: set_extract accepted_def)
qed

text \<open>
  C3.  Under scope us or mixed, every word-bounded token of one to five letters
  \<open>A\<close> to \<open>Z\<close> is visited by the ticker loop, and it is kept exactly when the window
  from 20 characters before it to 20 characters after it holds a dollar sign, a yen
  sign (U+00A5), a fullwidth yen sign (U+FFE5), a percent sign or a decimal digit.
  So a word of uppercase letters is in the output exactly when the text holds it as
  such a token with such a mark in its window.  Under scope us, \<open>AAPL rose 3%\<close> yields
  \<open>AAPL\<close> and \<open>AAPL is great\<close> yields nothing.
\<close>

theorem ticker_kept_iff_price_mark_near:
  assumes "scope \<in> {''us'', ''mixed''}"
  shows "(\<forall>s e. ticker_token U t s e \<longrightarrow>
            \<lparr>m_start = s, m_end = e, m_code = None\<rparr> \<in> set (finditer U USSTOCK_FULL t)
            \<and> (ticker_kept U t \<lparr>m_start = s, m_end = e, m_code = None\<rparr> \<longleftrightarrow> price_mark_near U t s e))
         \<and> (\<forall>w. ticker_word w \<longrightarrow>
              (w \<in> set (extract_stock_codes U t scope) \<longleftrightarrow>
                 (\<exists>s. ticker_token U t s (s + length w) \<and> slice t s (s + length w) = w
                      \<and> price_mark_near U t s (s + length w))))
         \<and> extract_stock_codes U (str ''AAPL rose 3%'') ''us'' = [str ''AAPL'']
         \<and> extract_stock_codes U (str ''AAPL is great'') ''us'' = []"
proof (intro conjI allI impI)
  fix s e assume "ticker_token U t s e"
  then show "\<lparr>m_start = s, m_end = e, m_code = None\<rparr> \<in> set (finditer U USSTOCK_FULL t)"
    by (simp add: us_finditer_iff)
  show "ticker_kept U t \<lparr>m_start = s, m_end = e, m_code = None\<rparr> \<longleftrightarrow> price_mark_near U t s e"
    by (simp add: ticker_kept_iff)
next
  fix w assume "ticker_word w"
  with assms show "w \<in> set (extract_stock_codes U t scope) \<longleftrightarrow>
                 (\<exists>s. ticker_token U t s (s + length w) \<and> slice t s (s + length w) = w
                      \<and> price_mark_near U t s (s + length w))"
    by (rule ticker_in_output_iff)
next
  show "extract_stock_codes U (str ''AAPL rose 3%'') ''us'' = [str ''AAPL'']"
    by (simp add: run_extract)
  show "extract_stock_codes U (str ''AAPL is great'') ''us'' = []"
    by (simp add: run_extract)
qed

theorem ticker_kept_iff_price_mark_near_witness:
  "''us'' \<in> {''us'', ''mixed''}
   \<and> ticker_token ascii_tables (str ''AAPL rose 3%'') 0 4
   \<and> ticker_word (str ''AAPL'')
   \<and> price_mark_near ascii_tables (str ''AAPL rose 3%'') 0 4
   \<and> ticker_kept ascii_tables (str ''AAPL rose 3%'') \<lparr>m_start = 0, m_end = 4, m_code = None\<rparr>
   \<and> str ''AAPL'' \<in> set (extract_stock_codes ascii_tables (str ''AAPL rose 3%'') ''us'')"
proof -
  let ?t = "str ''AAPL rose 3%''"
  have sc: "''us'' \<in> {''us'', ''mixed''}" by simp
  have az: "upper_AZ (?t ! k)" if "k < 4" for k
  proof -
    from that consider "k = 0" | "k = 1" | "k = 2" | "k = 3" by linarith
    then show ?thesis by cases (simp_all add: str_def upper_AZ_def)
  qed
  have tk: "ticker_token ascii_tables ?t 0 4"
    unfolding ticker_token_def using az
    by (simp add: str_def boundary_def isword_def isalnum_def)
  have tw: "ticker_word (str ''AAPL'')"
    by (simp add: ticker_word_def str_def upper_AZ_def)
  have pm: "price_mark_near ascii_tables ?t 0 4"
    by (simp add: price_mark_near_def window20_def slice_def str_def percent_sign_def)
  have sl: "ticker_token ascii_tables ?t 0 (0 + length (str ''AAPL''))
            \<and> slice ?t 0 (0 + length (str ''AAPL'')) = str ''AAPL''
            \<and> price_mark_near ascii_tables ?t 0 (0 + length (str ''AAPL''))"
  proof -
    have len: "0 + length (str ''AAPL'') = 4" by (simp add: str_def)
    have "slice ?t 0 4 = str ''AAPL''" by (simp add: str_def slice_def)
    with tk pm show ?thesis unfolding len by blast
  qed
  from ticker_kept_iff_price_mark_near [OF sc, of ascii_tables ?t] tk tw pm sl
  have "ticker_kept ascii_tables ?t \<lparr>m_start = 0, m_end = 4, m_code = None\<rparr>"
    and "str ''AAPL'' \<in> set (extract_stock_codes ascii_tables ?t ''us'')"
    by blast+
  with sc tk tw pm show ?thesis by blast
qed

lemma distinct_count_list: "distinct xs \<Longrightarrow> x \<in> set xs \<Longrightarrow> count_list xs x = 1"
  by (induction xs) auto

lemma hk_token_in_output:
  assumes "scope \<in> {''hk'', ''mixed''}" "hk_token U t s"
  shows "upper U (slice t s (s + 7)) \<in> set (extract_stock_codes U t scope)"
proof -
  let ?m = "\<lparr>m_start = s, m_end = s + 7, m_code = None\<rparr>"
  from assms(2) have "?m \<in> set (finditer U (HKSTOCK_FULL U) t)" by (simp add: hk_finditer_iff)
  then have "upper U (group0 t ?m) \<in> set (overseas_tokens U t)"
    unfolding overseas_tokens_def by (auto intro: rev_image_eqI)
  with assms(1) show ?thesis by (auto simp: set_extract accepted_def group0_def)
qed

text \<open>
  C4.  Under scope hk or mixed, every word-bounded token made of the marker \<open>HK\<close> in
  either case and five digits is in the output as the whole token uppercased, exactly
  once.  Under scope hk, a text with \<open>hk00700\<close> and \<open>HK00700\<close> yields the single
  entry \<open>HK00700\<close>, and it stands where the first occurrence put it.
\<close>

theorem overseas_token_kept_uppercased:
  assumes "scope \<in> {''hk'', ''mixed''}"
  shows "(\<forall>s. hk_token U t s \<longrightarrow>
            count_list (extract_stock_codes U t scope) (upper U (slice t s (s + 7))) = 1)
         \<and> extract_stock_codes U (str ''hk00700 and HK00700'') ''hk'' = [str ''HK00700'']
         \<and> extract_stock_codes U (str ''hk00700 HK00005 HK00700'') ''hk''
             = [str ''HK00700'', str ''HK00005'']"
proof (intro conjI allI impI)
  fix s assume "hk_token U t s"
  with assms have "upper U (slice t s (s + 7)) \<in> set (extract_stock_codes U t scope)"
    by (rule hk_token_in_output)
  moreover have "distinct (extract_stock_codes U t scope)"
    by (simp add: extract_eq_first_occurrences)
  ultimately show "count_list (extract_stock_codes U t scope) (upper U (slice t s (s + 7))) = 1"
    by (simp add: distinct_count_list)
next
  show "extract_stock_codes U (str ''hk00700 and HK00700'') ''hk'' = [str ''HK00700'']"
    by (simp add: run_extract)
  show "extract_stock_codes U (str ''hk00700 HK00005 HK00700'') ''hk''
             = [str ''HK00700'', str ''HK00005'']"
    by (simp add: run_extract)
qed

theorem overseas_token_kept_uppercased_witness:
  "''mixed'' \<in> {''hk'', ''mixed''}
   \<and> hk_token ascii_tables (str ''600519 hk00700'') 7
   \<and> upper ascii_tables (slice (str ''600519 hk00700'') 7 (7 + 7)) = str ''HK00700''
   \<and> count_list (extract_stock_codes ascii_tables (str ''600519 hk00700'') ''mixed'')
        (str ''HK00700'') = 1"
proof -
  let ?t = "str ''600519 hk00700''"
  have sc: "''mixed'' \<in> {''hk'', ''mixed''}" by simp
  have tk: "hk_token ascii_tables ?t 7"
    by (simp add: hk_token_def str_def boundary_def isword_def isalnum_def isdecimal_def
        ignorecase_def ascii_lower_def)
  have up: "upper ascii_tables (slice ?t 7 (7 + 7)) = str ''HK00700''"
    by (simp add: upper_def upper_char_def slice_def str_def isdecimal_def)
  from overseas_token_kept_uppercased [OF sc, of ascii_tables ?t] tk
  have "count_list (extract_stock_codes ascii_tables ?t ''mixed'')
          (upper ascii_tables (slice ?t 7 (7 + 7))) = 1"
    by blast
  with sc tk up show ?thesis by simp
qed

lemma printed_write: "concat (map printed (write_if_requested p x)) = []"
  by (cases p) (simp_all add: write_if_requested_def)

lemma filter_write:
  "filter is_build (write_if_requested p x) = []"
  "filter (\<lambda>e. e = CallRun) (write_if_requested p x) = []"
  "LogWarning \<notin> set (write_if_requested p x)"
  "LogError \<notin> set (write_if_requested p x)"
  by (cases p; simp add: write_if_requested_def)+

lemma stdout_success:
  "success r \<Longrightarrow>
   stdout_of (main U a (Executor r))
     = [join (str '','') (py_prefix (extract_stock_codes U (content r) (market a)) (max_stocks a))]"
  by (simp add: main_def main_after_run_def stdout_of_def printed_write Let_def)

lemma exit_success: "success r \<Longrightarrow> exit_status (main U a (Executor r)) = 0"
  by (simp add: main_def main_after_run_def exit_status_def Let_def)

lemma py_prefix_nonneg: "0 \<le> n \<Longrightarrow> py_prefix xs n = take (nat n) xs"
  by (simp add: py_prefix_def)

lemma py_prefix_neg: "n < 0 \<Longrightarrow> py_prefix xs n = take (length xs - nat (- n)) xs"
proof -
  assume "n < 0"
  then have "nat (int (length xs) + n) = length xs - nat (- n)" by arith
  with \<open>n < 0\<close> show ?thesis by (simp add: py_prefix_def)
qed

text \<open>
  C5, as amended.  When \<open>max_stocks\<close> is not negative and the agent run succeeds
  (\<open>Executor r\<close>: the run returns \<open>r\<close> and the files asked for are written), the
  line printed is the comma-joined list of the first \<open>max_stocks\<close> extracted codes, in
  their order: at most \<open>max_stocks\<close> codes, the earliest ones.  With \<open>max_stocks = 2\<close>
  and the text \<open>111111 222222 666666\<close> the line is \<open>111111,222222\<close>.
\<close>

theorem truncation_keeps_earliest:
  assumes "0 \<le> max_stocks a" "success r"
  shows "stdout_of (main U a (Executor r))
           = [join (str '','')
                (take (nat (max_stocks a)) (extract_stock_codes U (content r) (market a)))]
         \<and> int (length (take (nat (max_stocks a))
                  (extract_stock_codes U (content r) (market a)))) \<le> max_stocks a
         \<and> stdout_of (main U
               \<lparr>strategy = s, max_stocks = 2, output_path = out, report = rep,
                market = ''cn'', debug = d\<rparr>
               (Executor \<lparr>success = True, error = err, content = str ''111111 222222 666666''\<rparr>))
             = [str ''111111,222222'']"
proof (intro conjI)
  show "stdout_of (main U a (Executor r))
           = [join (str '','')
                (take (nat (max_stocks a)) (extract_stock_codes U (content r) (market a)))]"
    using assms by (simp add: stdout_success py_prefix_nonneg)
  show "int (length (take (nat (max_stocks a))
                  (extract_stock_codes U (content r) (market a)))) \<le> max_stocks a"
    using assms(1) by simp
  have "extract_stock_codes U (str ''111111 222222 666666'') ''cn''
          = [str ''111111'', str ''222222'', str ''666666'']"
    by (simp add: run_extract)
  then show "stdout_of (main U
               \<lparr>strategy = s, max_stocks = 2, output_path = out, report = rep,
                market = ''cn'', debug = d\<rparr>
               (Executor \<lparr>success = True, error = err, content = str ''111111 222222 666666''\<rparr>))
             = [str ''111111,222222'']"
    by (simp add: stdout_success py_prefix_def str_def)
qed

theorem truncation_keeps_earliest_witness:
  "0 \<le> max_stocks \<lparr>strategy = ''short_term_selection'', max_stocks = 1, output_path = None,
                     report = None, market = ''cn'', debug = False\<rparr>
   \<and> success \<lparr>success = True, error = [], content = str ''600519 000001''\<rparr>
   \<and> stdout_of (main ascii_tables
         \<lparr>strategy = ''short_term_selection'', max_stocks = 1, output_path = None,
          report = None, market = ''cn'', debug = False\<rparr>
         (Executor \<lparr>success = True, error = [], content = str ''600519 000001''\<rparr>))
       = [str ''600519'']"
proof -
  let ?a = "\<lparr>strategy = ''short_term_selection'', max_stocks = 1, output_path = None,
                     report = None, market = ''cn'', debug = False\<rparr>"
  let ?r = "\<lparr>success = True, error = [], content = str ''600519 000001''\<rparr>"
  have h: "0 \<le> max_stocks ?a" "success ?r" by simp_all
  have e: "extract_stock_codes ascii_tables (str ''600519 000001'') ''cn''
          = [str ''600519'', str ''000001'']"
    by (simp add: run_extract)
  from truncation_keeps_earliest [OF h, of ascii_tables] e
  have "stdout_of (main ascii_tables ?a (Executor ?r)) = [str ''600519'']"
    by (simp add: str_def)
  with h show ?thesis by blast
qed

theorem truncation_negative_limit_counterexample:
  "\<not> int (length (py_prefix
           (extract_stock_codes ascii_tables (str ''111111 222222 666666'') ''cn'') (- 1))) \<le> - 1
   \<and> stdout_of (main ascii_tables
         \<lparr>strategy = ''short_term_selection'', max_stocks = - 1, output_path = None,
          report = None, market = ''cn'', debug = False\<rparr>
         (Executor \<lparr>success = True, error = [], content = str ''111111 222222 666666''\<rparr>))
       = [str ''111111,222222'']"
proof -
  have e: "extract_stock_codes ascii_tables (str ''111111 222222 666666'') ''cn''
          = [str ''111111'', str ''222222'', str ''666666'']"
    by (simp add: run_extract)
  then show ?thesis by (simp add: stdout_success py_prefix_def str_def)
qed

text \<open>
  C6.  When the agent run succeeds and the extractor, once reached, finds no code, the
  program logs a warning, prints one empty line and ends with exit status 0.
\<close>

theorem empty_result_is_success:
  assumes "success r" "extract_stock_codes U (content r) (market a) = []"
  shows "stdout_of (main U a (Executor r)) = [[]]
         \<and> exit_status (main U a (Executor r)) = 0
         \<and> LogWarning \<in> set (fst (main U a (Executor r)))
         \<and> LogError \<notin> set (fst (main U a (Executor r)))"
  using assms
  by (simp add: stdout_success exit_success py_prefix_def)
     (simp add: main_def main_after_run_def Let_def py_prefix_def filter_write)

theorem empty_result_is_success_witness:
  "success \<lparr>success = True, error = [], content = str ''no candidates today''\<rparr>
   \<and> extract_stock_codes ascii_tables (str ''no candidates today'') ''cn'' = []
   \<and> stdout_of (main ascii_tables
         \<lparr>strategy = ''short_term_selection'', max_stocks = 10, output_path = None,
          report = None, market = ''cn'', debug = False\<rparr>
         (Executor \<lparr>success = True, error = [], content = str ''no candidates today''\<rparr>)) = [[]]
   \<and> exit_status (main ascii_tables
         \<lparr>strategy = ''short_term_selection'', max_stocks = 10, output_path = None,
          report = None, market = ''cn'', debug = False\<rparr>
         (Executor \<lparr>success = True, error = [], content = str ''no candidates today''\<rparr>)) = 0"
proof -
  let ?a = "\<lparr>strategy = ''short_term_selection'', max_stocks = 10, output_path = None,
          report = None, market = ''cn'', debug = False\<rparr>"
  let ?r = "\<lparr>success = True, error = [], content = str ''no candidates today''\<rparr>"
  have s: "success ?r" by simp
  have e: "extract_stock_codes ascii_tables (str ''no candidates today'') ''cn'' = []"
    by (simp add: run_extract)
  then have e': "extract_stock_codes ascii_tables (content ?r) (market ?a) = []" by simp
  from empty_result_is_success [OF s e'] s e show ?thesis by blast
qed



text \<open>
  C8 fails on the path where the construction of the executor raises: the program logs
  the error and returns 1 without printing.  Where the executor is built, the run
  returns and the file writes succeed, it prints exactly one line.
\<close>

theorem build_failure_prints_nothing:
  "stdout_of (main U a (BuildRaises exc)) = []
   \<and> exit_status (main U a (BuildRaises exc)) = 1
   \<and> length (stdout_of (main U a (Executor r))) = 1"
  by (cases "success r")
     (simp_all add: stdout_success,
      simp_all add: main_def main_after_run_def stdout_of_def exit_status_def)










text \<open>
  C10.  \<open>max_stocks\<close> is any integer and the truncation is the slice
  \<open>codes[:max_stocks]\<close>.  For \<open>max_stocks \<ge> 0\<close> it keeps the first \<open>max_stocks\<close> codes,
  so at most that many.  For \<open>max_stocks < 0\<close> it keeps all codes but the last
  \<open>|max_stocks|\<close>, so the number of codes is not bounded by \<open>max_stocks\<close>; the program
  neither limits nor rejects the value, prints the sliced list and ends with status 0.
  With \<open>max_stocks = -1\<close> and three extracted codes it prints the first two.
\<close>

theorem negative_limit_drops_from_end:
  "(0 \<le> n \<longrightarrow> py_prefix xs n = take (nat n) xs \<and> int (length (py_prefix xs n)) \<le> n)
   \<and> (n < 0 \<longrightarrow> py_prefix xs n = take (length xs - nat (- n)) xs
                \<and> \<not> int (length (py_prefix xs n)) \<le> n)
   \<and> (success r \<longrightarrow>
         stdout_of (main U a (Executor r))
           = [join (str '','')
                (py_prefix (extract_stock_codes U (content r) (market a)) (max_stocks a))]
         \<and> exit_status (main U a (Executor r)) = 0)
   \<and> (success r \<and> max_stocks a = - 1
        \<and> extract_stock_codes U (content r) (market a) = [c1, c2, c3] \<longrightarrow>
         stdout_of (main U a (Executor r)) = [c1 @ str '','' @ c2])"
proof (intro conjI impI)
  assume "0 \<le> n"
  then show "py_prefix xs n = take (nat n) xs" by (rule py_prefix_nonneg)
  with \<open>0 \<le> n\<close> show "int (length (py_prefix xs n)) \<le> n" by simp
next
  assume "n < 0"
  then show "py_prefix xs n = take (length xs - nat (- n)) xs" by (rule py_prefix_neg)
  from \<open>n < 0\<close> show "\<not> int (length (py_prefix xs n)) \<le> n" by simp
next
  assume "success r"
  then show "stdout_of (main U a (Executor r))
           = [join (str '','')
                (py_prefix (extract_stock_codes U (content r) (market a)) (max_stocks a))]"
    by (rule stdout_success)
  from \<open>success r\<close> show "exit_status (main U a (Executor r)) = 0" by (rule exit_success)
next
  assume "success r \<and> max_stocks a = - 1
        \<and> extract_stock_codes U (content r) (market a) = [c1, c2, c3]"
  then show "stdout_of (main U a (Executor r)) = [c1 @ str '','' @ c2]"
    by (simp add: stdout_success py_prefix_def)
qed

theorem negative_limit_drops_from_end_witness:
  "py_prefix [str ''600519'', str ''000001'', str ''300750''] (- 1)
     = take (length [str ''600519'', str ''000001'', str ''300750''] - nat (- (- 1)))
         [str ''600519'', str ''000001'', str ''300750'']
   \<and> py_prefix [str ''600519'', str ''000001'', str ''300750''] (- 1)
       = [str ''600519'', str ''000001'']
   \<and> stdout_of (main ascii_tables
         \<lparr>strategy = ''short_term_selection'', max_stocks = - 1, output_path = None,
          report = None, market = ''cn'', debug = False\<rparr>
         (Executor \<lparr>success = True, error = [], content = str ''600519 000001 300750''\<rparr>))
       = [str ''600519,000001'']
   \<and> exit_status (main ascii_tables
         \<lparr>strategy = ''short_term_selection'', max_stocks = - 1, output_path = None,
          report = None, market = ''cn'', debug = False\<rparr>
         (Executor \<lparr>success = True, error = [], content = str ''600519 000001 300750''\<rparr>)) = 0"
proof -
  let ?a = "\<lparr>strategy = ''short_term_selection'', max_stocks = - 1, output_path = None,
          report = None, market = ''cn'', debug = False\<rparr>"
  let ?r = "\<lparr>success = True, error = [], content = str ''600519 000001 300750''\<rparr>"
  let ?xs = "[str ''600519'', str ''000001'', str ''300750'']"
  have e: "extract_stock_codes ascii_tables (content ?r) (market ?a) = ?xs"
    by (simp add: run_extract)
  have s: "success ?r" "max_stocks ?a = - 1" "(- 1 :: int) < 0" by simp_all
  note th = negative_limit_drops_from_end [of "- 1" ?xs ?r ascii_tables ?a "str ''600519''"
      "str ''000001''" "str ''300750''"]
  from th s have 1: "py_prefix ?xs (- 1) = take (length ?xs - nat (- (- 1))) ?xs" by blast
  then have 2: "py_prefix ?xs (- 1) = [str ''600519'', str ''000001'']" by simp
  from th s e have 3: "stdout_of (main ascii_tables ?a (Executor ?r))
      = [str ''600519'' @ str '','' @ str ''000001'']" by blast
  from th s have 4: "exit_status (main ascii_tables ?a (Executor ?r)) = 0" by blast
  from 3 have "stdout_of (main ascii_tables ?a (Executor ?r)) = [str ''600519,000001'']"
    by (simp add: str_def)
  with 1 2 4 show ?thesis by blast
qed

end
